theory Spec2Isabelle
  imports Complex_Main "HOL-Library.Word"
begin

unbundle bit_operations_syntax

section \<open>The round-trip jitter probe \<^verbatim>\<open>measure_jitter.py\<close>\<close>

text \<open>
  The script is a straight line of statements around one \<^verbatim>\<open>for\<close> loop. It talks to
  three things outside itself: the datagram socket, the clock \<^verbatim>\<open>time.perf_counter\<close>
  and the garbage collector. The model is a function from a description of what the
  outside does (the \<open>world\<close>) to the final contents of the two arrays, the exception
  that ended the script (if any) and the ordered list of everything the script did
  to the outside (the \<open>trace\<close>).

  Python floats are kept abstract: the type \<open>'f\<close> only has to be linearly ordered
  (the values are clock differences, never NaN), to carry some subtraction and
  multiplication, about which nothing is assumed, and to have numerals, so that the
  literal \<^verbatim>\<open>1_000_000\<close> of line 38 is the number \<open>1000000\<close> of \<open>'f\<close>. What
  \<^verbatim>\<open>statistics.mean\<close> and \<^verbatim>\<open>statistics.stdev\<close> return on enough data points belongs to
  the Python library, not to the script, and is a parameter; when they raise is
  modelled.
\<close>

subsection \<open>Data\<close>

type_synonym byte = "8 word"
type_synonym u64 = "64 word"

datatype error =
    OSError
  | TimeoutError
  | StructError
  | IndexError
  | ValueError
  | StatisticsError

text \<open>
  The part of the Python runtime whose results the script only passes on: the values
  of \<^verbatim>\<open>statistics.mean\<close> and \<^verbatim>\<open>statistics.stdev\<close>.
\<close>

record 'f pylib =
  fmean :: "'f list \<Rightarrow> 'f"
  fstdev :: "'f list \<Rightarrow> 'f"

datatype send_result = Sent | SendFails

datatype recv_result = Datagram "byte list" | TimesOut | RecvFails

text \<open>
  What the outside does during iteration \<open>i\<close>: the two clock readings, whether
  \<^verbatim>\<open>send\<close> raises, and what \<^verbatim>\<open>recv\<close> meets. \<open>Datagram d\<close>: the datagram \<open>d\<close>, of
  any length, has arrived in time and \<^verbatim>\<open>recv\<close> returns. \<open>TimesOut\<close>: nothing arrives
  within the second set by \<^verbatim>\<open>settimeout\<close>. \<open>RecvFails\<close>: \<^verbatim>\<open>recv\<close> raises another socket
  error; a platform that refuses a datagram longer than the buffer, instead of cutting
  it, answers such a datagram this way.
\<close>

record 'f exchange =
  t0 :: 'f
  send_res :: send_result
  recv_res :: recv_result
  t1 :: 'f

record 'f world =
  connects :: bool
  exchanges :: "nat \<Rightarrow> 'f exchange"

text \<open>Lines 45 to 49: the five statistics.\<close>

record 'f stats =
  min_lat :: 'f
  max_lat :: 'f
  avg_lat :: 'f
  stdev :: 'f
  jitter_pico :: 'f

datatype 'f event =
    SocketOpen
  | Connect
  | SetTimeout
  | PrintInit
  | GcCollect
  | GcDisable
  | GcEnable
  | Clock 'f
  | Send "byte list"
  | Recv nat
  | PrintStats nat "'f stats"
  | PrintLastHw u64

record 'f state =
  latencies :: "'f list"
  hw_timestamps :: "u64 list"
  trace :: "'f event list"

definition emit :: "'f event \<Rightarrow> 'f state \<Rightarrow> 'f state" where
  "emit e s = s\<lparr>trace := trace s @ [e]\<rparr>"

subsection \<open>Library functions the script calls\<close>

text \<open>
  \<^verbatim>\<open>min\<close> and \<^verbatim>\<open>max\<close> walk the sequence once and replace the running value on a
  strict comparison; both raise \<^verbatim>\<open>ValueError\<close> on an empty sequence.
\<close>

fun min_py :: "'f::linorder list \<Rightarrow> error + 'f" where
  "min_py [] = Inl ValueError"
| "min_py (x # xs) = Inr (foldl (\<lambda>m y. if y < m then y else m) x xs)"

fun max_py :: "'f::linorder list \<Rightarrow> error + 'f" where
  "max_py [] = Inl ValueError"
| "max_py (x # xs) = Inr (foldl (\<lambda>m y. if m < y then y else m) x xs)"

definition statistics_mean :: "'f pylib \<Rightarrow> 'f list \<Rightarrow> error + 'f" where
  "statistics_mean P xs = (if length xs < 1 then Inl StatisticsError else Inr (fmean P xs))"

definition statistics_stdev :: "'f pylib \<Rightarrow> 'f list \<Rightarrow> error + 'f" where
  "statistics_stdev P xs = (if length xs < 2 then Inl StatisticsError else Inr (fstdev P xs))"

text \<open>\<^verbatim>\<open>a[i] = v\<close> on an array: in range it stores, out of range it raises.\<close>

definition array_set :: "'a list \<Rightarrow> nat \<Rightarrow> 'a \<Rightarrow> error + 'a list" where
  "array_set xs i v = (if i < length xs then Inr (xs[i := v]) else Inl IndexError)"

text \<open>\<^verbatim>\<open>a[-1]\<close>: the element at \<open>len(a) - 1\<close>, an \<^verbatim>\<open>IndexError\<close> when there is none.\<close>

definition array_last :: "'a list \<Rightarrow> error + 'a" where
  "array_last xs = (if length xs < 1 then Inl IndexError else Inr (xs ! (length xs - 1)))"

text \<open>
  \<^verbatim>\<open>struct.unpack('<Q', data)[0]\<close>: the buffer must hold exactly eight bytes, which are
  read as one unsigned 64-bit number, least significant byte first.
\<close>

fun le_value :: "byte list \<Rightarrow> u64" where
  "le_value [] = 0"
| "le_value (b # bs) = ucast b + push_bit 8 (le_value bs)"

definition unpack_Q :: "byte list \<Rightarrow> error + u64" where
  "unpack_Q data = (if length data = 8 then Inr (le_value data) else Inl StructError)"

text \<open>
  \<^verbatim>\<open>recv(bufsize)\<close> returns at most \<open>bufsize\<close> bytes. When it returns on a datagram
  socket, these are the first bytes of one datagram, and the rest of that datagram is
  dropped (the behaviour of POSIX sockets; Linux is the platform assumed wherever a
  longer datagram is said to be received).
\<close>

definition recv_bytes :: "nat \<Rightarrow> byte list \<Rightarrow> byte list" where
  "recv_bytes bufsize d = take bufsize d"

subsection \<open>The measurement loop (lines 30 to 40)\<close>

definition iteration ::
  "('f::{minus,times,numeral}) world \<Rightarrow> nat \<Rightarrow> 'f state \<Rightarrow> error option \<times> 'f state" where
  "iteration w i s =
     (let x = exchanges w i;
          s1 = emit (Clock (t0 x)) s;
          s2 = emit (Send [0x54]) s1
      in case send_res x of
           SendFails \<Rightarrow> (Some OSError, s2)
         | Sent \<Rightarrow>
            (let s3 = emit (Recv 8) s2
             in case recv_res x of
                  TimesOut \<Rightarrow> (Some TimeoutError, s3)
                | RecvFails \<Rightarrow> (Some OSError, s3)
                | Datagram d \<Rightarrow>
                   (let data = recv_bytes 8 d;
                        s4 = emit (Clock (t1 x)) s3
                    in case array_set (latencies s4) i ((t1 x - t0 x) * 1000000) of
                         Inl e \<Rightarrow> (Some e, s4)
                       | Inr lat \<Rightarrow>
                          (let s5 = s4\<lparr>latencies := lat\<rparr>
                           in case unpack_Q data of
                                Inl e \<Rightarrow> (Some e, s5)
                              | Inr v \<Rightarrow>
                                 (case array_set (hw_timestamps s5) i v of
                                    Inl e \<Rightarrow> (Some e, s5)
                                  | Inr hw \<Rightarrow> (None, s5\<lparr>hw_timestamps := hw\<rparr>))))))"

function sample_loop ::
  "('f::{minus,times,numeral}) world \<Rightarrow> nat \<Rightarrow> nat \<Rightarrow> 'f state \<Rightarrow> error option \<times> 'f state" where
  "sample_loop w n i s =
     (if i < n
      then (case iteration w i s of
              (Some e, s') \<Rightarrow> (Some e, s')
            | (None, s') \<Rightarrow> sample_loop w n (Suc i) s')
      else (None, s))"
  by pat_completeness auto
termination
  by (relation "measure (\<lambda>(w, n, i, s). n - i)") auto

subsection \<open>The aggregation (lines 45 to 49) and the whole script\<close>

definition aggregate :: "('f::{linorder,minus}) pylib \<Rightarrow> 'f list \<Rightarrow> error + 'f stats" where
  "aggregate P lat =
     (case min_py lat of
        Inl e \<Rightarrow> Inl e
      | Inr mn \<Rightarrow>
         (case max_py lat of
            Inl e \<Rightarrow> Inl e
          | Inr mx \<Rightarrow>
             (case statistics_mean P lat of
                Inl e \<Rightarrow> Inl e
              | Inr avg \<Rightarrow>
                 (case statistics_stdev P lat of
                    Inl e \<Rightarrow> Inl e
                  | Inr sd \<Rightarrow>
                     Inr \<lparr>min_lat = mn, max_lat = mx, avg_lat = avg, stdev = sd,
                          jitter_pico = mx - mn\<rparr>))))"

text \<open>
  Lines 45 to 62: the statistics are computed, then printed (lines 51 to 61), and the
  last line prints \<^verbatim>\<open>hw_timestamps[-1]\<close>, which is evaluated only after the lines
  before it have been printed.
\<close>

definition report ::
  "('f::{linorder,minus}) pylib \<Rightarrow> nat \<Rightarrow> 'f state \<Rightarrow> error option \<times> 'f state" where
  "report P n s =
     (case aggregate P (latencies s) of
        Inl e \<Rightarrow> (Some e, s)
      | Inr st \<Rightarrow>
         (let s' = emit (PrintStats n st) s
          in case array_last (hw_timestamps s') of
               Inl e \<Rightarrow> (Some e, s')
             | Inr v \<Rightarrow> (None, emit (PrintLastHw v) s')))"

text \<open>
  The script with \<^verbatim>\<open>COUNT\<close> as its parameter \<open>n\<close>. Both arrays are allocated first
  (lines 12 and 13), then the socket is opened and connected; the collector is run
  and switched off; the loop runs inside \<^verbatim>\<open>try\<close>, and \<^verbatim>\<open>finally\<close> switches the
  collector back on whether or not the loop raised. An exception that leaves the loop
  ends the script after \<^verbatim>\<open>finally\<close>; otherwise the report follows.
\<close>

definition arrays :: "nat \<Rightarrow> ('f::zero) state" where
  "arrays n = \<lparr>latencies = replicate n 0, hw_timestamps = replicate n 0, trace = []\<rparr>"

definition measure_jitter ::
  "('f::{linorder,minus,times,zero,numeral}) pylib \<Rightarrow> 'f world \<Rightarrow> nat \<Rightarrow> error option \<times> 'f state" where
  "measure_jitter P w n =
     (let s0 = arrays n;
          s1 = emit Connect (emit SocketOpen s0)
      in if \<not> connects w then (Some OSError, s1)
         else
          (let s2 = emit GcDisable (emit GcCollect (emit PrintInit (emit SetTimeout s1)))
           in case sample_loop w n 0 s2 of
                (r, s3) \<Rightarrow>
                 (let s4 = emit GcEnable s3
                  in case r of
                       Some e \<Rightarrow> (Some e, s4)
                     | None \<Rightarrow> report P n s4)))"

text \<open>The script as it stands, with the constant of line 10.\<close>

definition COUNT :: nat where
  "COUNT = 10000"

definition main :: "('f::{linorder,minus,times,zero,numeral}) pylib \<Rightarrow> 'f world \<Rightarrow> error option \<times> 'f state" where
  "main P w = measure_jitter P w COUNT"

subsection \<open>Reading a trace\<close>

text \<open>Whether automatic collection is on after the events of a trace; it is on at start.\<close>

fun gc_step :: "bool \<Rightarrow> 'f event \<Rightarrow> bool" where
  "gc_step b GcDisable = False"
| "gc_step b GcEnable = True"
| "gc_step b _ = b"

definition gc_enabled :: "'f event list \<Rightarrow> bool" where
  "gc_enabled evs = foldl gc_step True evs"

text \<open>The events of the loop body: clock readings and socket traffic.\<close>

fun loop_event :: "'f event \<Rightarrow> bool" where
  "loop_event (Clock _) = True"
| "loop_event (Send _) = True"
| "loop_event (Recv _) = True"
| "loop_event _ = False"

fun is_report :: "'f event \<Rightarrow> bool" where
  "is_report (PrintStats _ _) = True"
| "is_report (PrintLastHw _) = True"
| "is_report _ = False"

subsection \<open>The peer and the exchanges\<close>

text \<open>
  The peer's side of the wire: the eight bytes of a 64-bit value, least significant
  byte first. \<open>le_bytes k v\<close> is the first \<open>k\<close> of them.
\<close>

fun le_bytes :: "nat \<Rightarrow> u64 \<Rightarrow> byte list" where
  "le_bytes 0 v = []"
| "le_bytes (Suc k) v = ucast v # le_bytes k (drop_bit 8 v)"

definition pack_Q :: "u64 \<Rightarrow> byte list" where
  "pack_Q v = le_bytes 8 v"

text \<open>An exchange that the loop body gets through without raising.\<close>

fun full_reply :: "recv_result \<Rightarrow> bool" where
  "full_reply (Datagram d) = (8 \<le> length d)"
| "full_reply _ = False"

definition ok_exchange :: "'f exchange \<Rightarrow> bool" where
  "ok_exchange x = (send_res x = Sent \<and> full_reply (recv_res x))"

text \<open>What a completed exchange stores and what it does to the outside.\<close>

definition lat_of :: "('f::{minus,times,numeral}) exchange \<Rightarrow> 'f" where
  "lat_of x = (t1 x - t0 x) * 1000000"

fun payload :: "recv_result \<Rightarrow> byte list" where
  "payload (Datagram d) = d"
| "payload _ = []"

definition hw_of :: "'f exchange \<Rightarrow> u64" where
  "hw_of x = le_value (recv_bytes 8 (payload (recv_res x)))"

definition ok_events :: "'f exchange \<Rightarrow> 'f event list" where
  "ok_events x = [Clock (t0 x), Send [0x54], Recv 8, Clock (t1 x)]"

text \<open>Everything the script does before the loop, once the socket is connected.\<close>

definition setup_events :: "'f event list" where
  "setup_events = [SocketOpen, Connect, SetTimeout, PrintInit, GcCollect, GcDisable]"

definition filled ::
  "('f::{minus,times,zero,numeral}) world \<Rightarrow> nat \<Rightarrow> nat \<Rightarrow> 'f state" where
  "filled w n i =
     \<lparr>latencies = map (\<lambda>j. lat_of (exchanges w j)) [0..<i] @ replicate (n - i) 0,
      hw_timestamps = map (\<lambda>j. hw_of (exchanges w j)) [0..<i] @ replicate (n - i) 0,
      trace = setup_events @ concat (map (\<lambda>j. ok_events (exchanges w j)) [0..<i])\<rparr>"

text \<open>The statistics of a sequence, written with the greatest and least element.\<close>

definition range_stats :: "('f::{linorder,minus}) pylib \<Rightarrow> 'f list \<Rightarrow> 'f stats" where
  "range_stats P lat =
     \<lparr>min_lat = Min (set lat), max_lat = Max (set lat), avg_lat = fmean P lat,
      stdev = fstdev P lat, jitter_pico = Max (set lat) - Min (set lat)\<rparr>"

subsection \<open>A concrete instance\<close>

text \<open>
  Exact real arithmetic in the place of the floats, with the textbook mean and
  sample standard deviation, and a peer that answers the first \<open>length ds\<close> requests
  with the datagrams \<open>ds\<close> and then falls silent; request \<open>i\<close> is sent at second
  \<open>i\<close> and its answer arrives half a second later. They serve to run the model on
  concrete inputs.
\<close>

definition mean_real :: "real list \<Rightarrow> real" where
  "mean_real xs = sum_list xs / real (length xs)"

definition stdev_real :: "real list \<Rightarrow> real" where
  "stdev_real xs = sqrt (sum_list (map (\<lambda>x. (x - mean_real xs)\<^sup>2) xs) / (real (length xs) - 1))"

definition real_lib :: "real pylib" where
  "real_lib = \<lparr>fmean = mean_real, fstdev = stdev_real\<rparr>"

definition echo_world :: "byte list list \<Rightarrow> real world" where
  "echo_world ds =
     \<lparr>connects = True,
      exchanges = (\<lambda>i. \<lparr>t0 = real i, send_res = Sent,
                         recv_res = (if i < length ds then Datagram (ds ! i) else TimesOut),
                         t1 = real i + 1 / 2\<rparr>)\<rparr>"

section \<open>Facts about the library functions\<close>

lemma foldl_min_py: "foldl (\<lambda>m y. if y < m then y else m) x xs = Min (set (x # xs))"
proof (induction xs arbitrary: x)
  case Nil
  show ?case by simp
next
  case (Cons a xs)
  have "foldl (\<lambda>m y. if y < m then y else m) x (a # xs) = Min (set ((if a < x then a else x) # xs))"
    using Cons.IH by simp
  also have "\<dots> = Min (insert (min a x) (set xs))"
    by (simp add: min_def not_less less_le)
  also have "\<dots> = Min (set (x # a # xs))"
    by (cases "xs = []") (auto simp: min.commute min.left_commute min.assoc)
  finally show ?case .
qed

lemma foldl_max_py: "foldl (\<lambda>m y. if m < y then y else m) x xs = Max (set (x # xs))"
proof (induction xs arbitrary: x)
  case Nil
  show ?case by simp
next
  case (Cons a xs)
  have "foldl (\<lambda>m y. if m < y then y else m) x (a # xs) = Max (set ((if x < a then a else x) # xs))"
    using Cons.IH by simp
  also have "\<dots> = Max (insert (max x a) (set xs))"
    by (simp add: max_def not_less less_le)
  also have "\<dots> = Max (set (x # a # xs))"
    by (cases "xs = []") (auto simp: max.commute max.left_commute max.assoc)
  finally show ?case .
qed

lemma min_py_Min: "xs \<noteq> [] \<Longrightarrow> min_py xs = Inr (Min (set xs))"
  by (cases xs) (simp_all only: min_py.simps foldl_min_py, simp)

lemma max_py_Max: "xs \<noteq> [] \<Longrightarrow> max_py xs = Inr (Max (set xs))"
  by (cases xs) (simp_all only: max_py.simps foldl_max_py, simp)

text \<open>
  The little-endian bytes of a 64-bit value decode to that value.
\<close>

lemma le_step:
  "ucast (ucast v :: byte) + push_bit 8 (take_bit (8 * k) (drop_bit 8 (v::u64))) = take_bit (8 * Suc k) v"
proof -
  have a: "(ucast (ucast v :: byte) :: u64) = take_bit 8 v"
    by (rule bit_word_eqI) (auto simp: bit_simps)
  have "take_bit 8 v + push_bit 8 (take_bit (8 * k) (drop_bit 8 v))
      = take_bit 8 v OR push_bit 8 (take_bit (8 * k) (drop_bit 8 v))"
    by (rule disjunctive_add) (auto simp: bit_simps)
  also have "\<dots> = take_bit (8 * Suc k) v"
    by (rule bit_word_eqI) (auto simp: bit_simps)
  finally show ?thesis by (simp only: a)
qed

lemma le_value_le_bytes: "le_value (le_bytes k v) = take_bit (8 * k) v"
proof (induction k arbitrary: v)
  case 0
  show ?case by simp
next
  case (Suc k)
  have "le_value (le_bytes (Suc k) v) = ucast (ucast v :: byte) + push_bit 8 (take_bit (8 * k) (drop_bit 8 v))"
    using Suc.IH by simp
  then show ?case by (simp only: le_step)
qed

lemma length_le_bytes: "length (le_bytes k v) = k"
  by (induction k arbitrary: v) simp_all

lemma length_pack_Q: "length (pack_Q v) = 8"
  by (simp add: pack_Q_def length_le_bytes)

lemma le_value_pack_Q: "le_value (pack_Q v) = v"
proof -
  have "take_bit (8 * 8) v = v"
    by (rule take_bit_word_eq_self) simp
  then show ?thesis by (simp only: pack_Q_def le_value_le_bytes)
qed

lemma unpack_pack_Q: "unpack_Q (pack_Q v) = Inr v"
proof -
  have "length (le_bytes k v) = k" for k and v :: u64
    by (induction k arbitrary: v) simp_all
  moreover have "take_bit (8 * 8) v = v"
    by (rule take_bit_word_eq_self) simp
  ultimately show ?thesis
    by (simp only: unpack_Q_def pack_Q_def le_value_le_bytes) simp
qed

text \<open>
  Conversely, any eight bytes are the little-endian bytes of the value they decode to.
\<close>

lemma bit_byte_low: "bit (b :: byte) n \<Longrightarrow> n < 8"
  by (drule bit_imp_le_length) simp

lemma le_value_Cons_or: "le_value (b # bs) = ucast b OR push_bit 8 (le_value bs)"
  by simp (rule disjunctive_add, auto simp: bit_simps dest: bit_byte_low)

lemma le_value_fits: "take_bit (8 * length bs) (le_value bs) = le_value bs"
proof (induction bs)
  case Nil
  show ?case by simp
next
  case (Cons b bs)
  have small: "bit (le_value bs) m \<Longrightarrow> m < 8 * length bs" for m
    by (metis Cons.IH bit_take_bit_iff)
  have "take_bit (8 * length (b # bs)) (ucast b OR push_bit 8 (le_value bs))
      = ucast b OR push_bit 8 (le_value bs)"
  proof (rule bit_word_eqI)
    fix n
    show "bit (take_bit (8 * length (b # bs)) (ucast b OR push_bit 8 (le_value bs))) n
        = bit (ucast b OR push_bit 8 (le_value bs) :: u64) n"
      using small [of "n - 8"] bit_byte_low [of b n] by (auto simp: bit_simps)
  qed
  then show ?case by (simp only: le_value_Cons_or)
qed

lemma le_bytes_le_value: "length bs \<le> 8 \<Longrightarrow> le_bytes (length bs) (le_value bs) = bs"
proof (induction bs)
  case Nil
  show ?case by simp
next
  case (Cons b bs)
  let ?r = "le_value bs"
  have low: "(ucast (ucast b OR push_bit 8 ?r) :: byte) = b"
    by (rule bit_word_eqI) (auto simp: bit_simps)
  have small: "bit ?r m \<Longrightarrow> m < 56" for m
  proof -
    assume "bit ?r m"
    then have "m < 8 * length bs" by (metis le_value_fits bit_take_bit_iff)
    with Cons.prems show ?thesis by simp
  qed
  have high: "drop_bit 8 (ucast b OR push_bit 8 ?r) = ?r"
  proof (rule bit_word_eqI)
    fix n
    show "bit (drop_bit 8 (ucast b OR push_bit 8 ?r)) n = bit ?r n"
      using small [of n] bit_byte_low [of b "8 + n"] by (auto simp: bit_simps)
  qed
  from Cons.prems have "length bs \<le> 8" by simp
  with Cons.IH have "le_bytes (length bs) ?r = bs" by simp
  then show ?case
    by (simp only: le_value_Cons_or le_bytes.simps length_Cons low high)
qed

lemma pack_Q_le_value: "length bs = 8 \<Longrightarrow> pack_Q (le_value bs) = bs"
  using le_bytes_le_value [of bs] by (simp add: pack_Q_def)

section \<open>Facts about the loop\<close>

text \<open>
  An exchange that goes through stores its two values at index \<open>i\<close> and adds its four
  events; whatever happens, an iteration touches no other index, keeps both lengths
  and adds only loop events.
\<close>

lemma iteration_ok:
  assumes "ok_exchange (exchanges w i)" "i < length (latencies s)" "i < length (hw_timestamps s)"
  shows "iteration w i s =
           (None, s\<lparr>latencies := (latencies s)[i := lat_of (exchanges w i)],
                    hw_timestamps := (hw_timestamps s)[i := hw_of (exchanges w i)],
                    trace := trace s @ ok_events (exchanges w i)\<rparr>)"
proof -
  from assms(1) obtain d where d: "send_res (exchanges w i) = Sent"
      "recv_res (exchanges w i) = Datagram d" "8 \<le> length d"
    by (cases "recv_res (exchanges w i)") (auto simp: ok_exchange_def)
  from d(3) have u: "unpack_Q (recv_bytes 8 d) = Inr (le_value (recv_bytes 8 d))"
    by (simp add: unpack_Q_def recv_bytes_def)
  show ?thesis
    using assms(2,3) d(1,2) u
    by (simp add: iteration_def Let_def emit_def array_set_def lat_of_def hw_of_def ok_events_def)
qed

lemma iteration_None_ok:
  "iteration w i s = (None, s') \<Longrightarrow> ok_exchange (exchanges w i)"
  by (auto simp: iteration_def Let_def ok_exchange_def unpack_Q_def recv_bytes_def
           split: send_result.splits recv_result.splits sum.splits if_splits)

lemma iteration_frame:
  assumes "iteration w i s = (r, s')"
  shows "length (latencies s') = length (latencies s)"
    and "length (hw_timestamps s') = length (hw_timestamps s)"
    and "\<exists>evs. trace s' = trace s @ evs \<and> list_all loop_event evs"
    and "j \<noteq> i \<Longrightarrow> latencies s' ! j = latencies s ! j"
    and "j \<noteq> i \<Longrightarrow> hw_timestamps s' ! j = hw_timestamps s ! j"
  using assms
  by (auto simp: iteration_def Let_def emit_def array_set_def
           split: send_result.splits recv_result.splits sum.splits if_splits)

lemma sample_loop_frame:
  "sample_loop w n i s = (r, s') \<Longrightarrow>
     length (latencies s') = length (latencies s) \<and>
     length (hw_timestamps s') = length (hw_timestamps s) \<and>
     (\<exists>evs. trace s' = trace s @ evs \<and> list_all loop_event evs) \<and>
     (\<forall>j<i. latencies s' ! j = latencies s ! j \<and> hw_timestamps s' ! j = hw_timestamps s ! j)"
proof (induction w n i s arbitrary: r s' rule: sample_loop.induct)
  case (1 w n i s)
  show ?case
  proof (cases "i < n")
    case False
    with "1.prems" show ?thesis by simp
  next
    case True
    obtain r1 s1 where it: "iteration w i s = (r1, s1)"
      by (cases "iteration w i s")
    note fr = iteration_frame [OF it]
    show ?thesis
    proof (cases r1)
      case (Some e)
      with True it "1.prems" have "s' = s1" by simp
      with fr show ?thesis by auto
    next
      case None
      with True it "1.prems" have run: "sample_loop w n (Suc i) s1 = (r, s')" by simp
      have ih: "length (latencies s') = length (latencies s1) \<and>
          length (hw_timestamps s') = length (hw_timestamps s1) \<and>
          (\<exists>evs. trace s' = trace s1 @ evs \<and> list_all loop_event evs) \<and>
          (\<forall>j<Suc i. latencies s' ! j = latencies s1 ! j \<and> hw_timestamps s' ! j = hw_timestamps s1 ! j)"
        using "1.IH" [OF True it [symmetric] None run] .
      from fr(3) obtain e1 where e1: "trace s1 = trace s @ e1" "list_all loop_event e1" by blast
      from ih obtain e2 where e2: "trace s' = trace s1 @ e2" "list_all loop_event e2" by blast
      have tr: "\<exists>evs. trace s' = trace s @ evs \<and> list_all loop_event evs"
        using e1 e2 by (intro exI [of _ "e1 @ e2"]) simp
      have old: "\<forall>j<i. latencies s' ! j = latencies s ! j \<and> hw_timestamps s' ! j = hw_timestamps s ! j"
        using ih fr(4,5) by (metis less_Suc_eq nat_neq_iff)
      show ?thesis using ih fr(1,2) tr old by simp
    qed
  qed
qed

lemma sample_loop_outside:
  "sample_loop w n i s = (r, s') \<Longrightarrow> n \<le> j \<Longrightarrow>
     latencies s' ! j = latencies s ! j \<and> hw_timestamps s' ! j = hw_timestamps s ! j"
proof (induction w n i s arbitrary: r s' rule: sample_loop.induct)
  case (1 w n i s)
  show ?case
  proof (cases "i < n")
    case False
    with "1.prems" show ?thesis by simp
  next
    case True
    obtain r1 s1 where it: "iteration w i s = (r1, s1)"
      by (cases "iteration w i s")
    from True "1.prems"(2) have ne: "j \<noteq> i" by simp
    note fr = iteration_frame(4,5) [OF it ne]
    show ?thesis
    proof (cases r1)
      case (Some e)
      with True it "1.prems" have "s' = s1" by simp
      with fr show ?thesis by simp
    next
      case None
      with True it "1.prems" have run: "sample_loop w n (Suc i) s1 = (r, s')" by simp
      from "1.IH" [OF True it [symmetric] None run "1.prems"(2)] fr show ?thesis by simp
    qed
  qed
qed

lemma sample_loop_split:
  "i \<le> k \<Longrightarrow> k \<le> n \<Longrightarrow>
   sample_loop w n i s =
     (case sample_loop w k i s of
        (Some e, s') \<Rightarrow> (Some e, s')
      | (None, s') \<Rightarrow> sample_loop w n k s')"
proof (induction w k i s rule: sample_loop.induct)
  case (1 w k i s)
  show ?case
  proof (cases "i < k")
    case False
    with "1.prems" have "i = k" by simp
    then show ?thesis by simp
  next
    case True
    then have lt: "i < n" using "1.prems" by simp
    obtain r1 s1 where it: "iteration w i s = (r1, s1)"
      by (cases "iteration w i s")
    show ?thesis
    proof (cases r1)
      case (Some e)
      with True lt it show ?thesis by simp
    next
      case None
      have "sample_loop w n (Suc i) s1 =
         (case sample_loop w k (Suc i) s1 of
            (Some e, s') \<Rightarrow> (Some e, s')
          | (None, s') \<Rightarrow> sample_loop w n k s')"
        using "1.IH" [OF True it [symmetric] None] True "1.prems" by simp
      with True lt it None show ?thesis by simp
    qed
  qed
qed

lemma sample_loop_ok:
  "(\<forall>j. i \<le> j \<and> j < n \<longrightarrow> ok_exchange (exchanges w j)) \<Longrightarrow>
   n \<le> length (latencies s) \<Longrightarrow> n \<le> length (hw_timestamps s) \<Longrightarrow>
   \<exists>s'. sample_loop w n i s = (None, s') \<and>
      trace s' = trace s @ concat (map (\<lambda>j. ok_events (exchanges w j)) [i..<n]) \<and>
      (\<forall>j. i \<le> j \<and> j < n \<longrightarrow>
         latencies s' ! j = lat_of (exchanges w j) \<and> hw_timestamps s' ! j = hw_of (exchanges w j))"
proof (induction w n i s rule: sample_loop.induct)
  case (1 w n i s)
  show ?case
  proof (cases "i < n")
    case False
    then show ?thesis by auto
  next
    case True
    define s1 where "s1 = s\<lparr>latencies := (latencies s)[i := lat_of (exchanges w i)],
                    hw_timestamps := (hw_timestamps s)[i := hw_of (exchanges w i)],
                    trace := trace s @ ok_events (exchanges w i)\<rparr>"
    have it: "iteration w i s = (None, s1)"
      unfolding s1_def using True "1.prems" by (intro iteration_ok) auto
    have "\<exists>s'. sample_loop w n (Suc i) s1 = (None, s') \<and>
      trace s' = trace s1 @ concat (map (\<lambda>j. ok_events (exchanges w j)) [Suc i..<n]) \<and>
      (\<forall>j. Suc i \<le> j \<and> j < n \<longrightarrow>
         latencies s' ! j = lat_of (exchanges w j) \<and> hw_timestamps s' ! j = hw_of (exchanges w j))"
      using "1.IH" [OF True it [symmetric] refl] "1.prems" by (simp add: s1_def)
    then obtain s' where s': "sample_loop w n (Suc i) s1 = (None, s')"
      "trace s' = trace s1 @ concat (map (\<lambda>j. ok_events (exchanges w j)) [Suc i..<n])"
      "\<forall>j. Suc i \<le> j \<and> j < n \<longrightarrow>
         latencies s' ! j = lat_of (exchanges w j) \<and> hw_timestamps s' ! j = hw_of (exchanges w j)"
      by blast
    from sample_loop_frame [OF s'(1)]
    have keep: "latencies s' ! i = latencies s1 ! i" "hw_timestamps s' ! i = hw_timestamps s1 ! i"
      by simp_all
    have at_i: "latencies s' ! i = lat_of (exchanges w i)" "hw_timestamps s' ! i = hw_of (exchanges w i)"
      using keep True "1.prems" by (simp_all add: s1_def)
    have run: "sample_loop w n i s = (None, s')"
      using True it s'(1) by simp
    have tr: "trace s' = trace s @ concat (map (\<lambda>j. ok_events (exchanges w j)) [i..<n])"
      using s'(2) True by (simp add: s1_def upt_conv_Cons)
    have vals: "\<forall>j. i \<le> j \<and> j < n \<longrightarrow>
         latencies s' ! j = lat_of (exchanges w j) \<and> hw_timestamps s' ! j = hw_of (exchanges w j)"
      using s'(3) at_i by (metis Suc_leI le_neq_implies_less)
    show ?thesis using run tr vals by blast
  qed
qed

lemma sample_loop_None_ok:
  "sample_loop w n i s = (None, s') \<Longrightarrow> i \<le> j \<Longrightarrow> j < n \<Longrightarrow> ok_exchange (exchanges w j)"
proof (induction w n i s rule: sample_loop.induct)
  case (1 w n i s)
  from "1.prems" have lt: "i < n" by simp
  obtain r1 s1 where it: "iteration w i s = (r1, s1)"
    by (cases "iteration w i s")
  have r1: "r1 = None"
    using "1.prems"(1) lt it by (cases r1) simp_all
  with lt it "1.prems"(1) have run: "sample_loop w n (Suc i) s1 = (None, s')" by simp
  show ?case
  proof (cases "j = i")
    case True
    with it r1 show ?thesis by (simp add: iteration_None_ok)
  next
    case False
    with "1.prems"(2) have "Suc i \<le> j" by simp
    from "1.IH" [OF lt it [symmetric] r1 run this "1.prems"(3)] show ?thesis .
  qed
qed

section \<open>Facts about the report\<close>

lemma aggregate_ok:
  assumes "2 \<le> length lat"
  shows "aggregate P lat = Inr (range_stats P lat)"
proof -
  from assms have ne: "lat \<noteq> []" by (cases lat) simp_all
  show ?thesis
    using assms ne
    by (simp add: aggregate_def min_py_Min [OF ne] max_py_Max [OF ne]
        statistics_mean_def statistics_stdev_def range_stats_def)
qed

lemma aggregate_short:
  "length lat < 2 \<Longrightarrow>
     aggregate P lat = Inl (if lat = [] then ValueError else StatisticsError)"
  by (cases lat) (simp_all add: aggregate_def statistics_mean_def statistics_stdev_def)

lemma report_ok:
  assumes "2 \<le> length (latencies s)" "length (hw_timestamps s) = length (latencies s)"
  shows "report P n s =
     (None, s\<lparr>trace := trace s @ [PrintStats n (range_stats P (latencies s)),
                PrintLastHw (hw_timestamps s ! (length (hw_timestamps s) - 1))]\<rparr>)"
proof -
  from assms have ne: "hw_timestamps s \<noteq> []" by (cases "hw_timestamps s") simp_all
  show ?thesis
    by (simp add: report_def aggregate_ok [OF assms(1)] array_last_def emit_def Let_def ne
        del: One_nat_def)
qed

lemma report_short:
  "length (latencies s) < 2 \<Longrightarrow>
     report P n s = (Some (if latencies s = [] then ValueError else StatisticsError), s)"
  by (simp add: report_def aggregate_short)

lemma report_arrays:
  "latencies (snd (report P n s)) = latencies s"
  "hw_timestamps (snd (report P n s)) = hw_timestamps s"
  by (simp_all add: report_def Let_def emit_def split: sum.splits)

lemma report_trace:
  "\<exists>rest. trace (snd (report P n s)) = trace s @ rest \<and> list_all is_report rest"
  by (auto simp: report_def Let_def emit_def split: sum.splits)

section \<open>Facts about the whole script\<close>

text \<open>
  The state after \<open>i\<close> exchanges that went through is \<open>filled w n i\<close>; the script is
  the loop from there, \<^verbatim>\<open>finally\<close>, and the report.
\<close>

lemma filled_simps:
  "length (latencies (filled w n n)) = n"
  "length (hw_timestamps (filled w n n)) = n"
  "latencies (emit e s) = latencies s"
  "hw_timestamps (emit e s) = hw_timestamps s"
  by (simp_all add: filled_def emit_def)

lemma length_setup_events: "length (setup_events :: 'f event list) = 6"
  by (simp add: setup_events_def)

lemma length_ok_events: "length (concat (map (\<lambda>j. ok_events (exchanges w j)) [0..<i])) = 4 * i"
  by (induction i) (simp_all add: ok_events_def)

lemma length_filled_trace: "length (trace (filled w n i)) = 6 + 4 * i"
  by (simp add: filled_def setup_events_def length_ok_events)

lemma no_report_ok_events:
  "\<not> list_ex is_report (concat (map (\<lambda>j. ok_events (exchanges w j)) js))"
  by (induction js) (simp_all add: ok_events_def)

lemma no_report_filled: "\<not> list_ex is_report (trace (filled w n i))"
  by (simp add: filled_def setup_events_def no_report_ok_events)

lemma sample_loop_prefix:
  assumes ok: "\<forall>j<i. ok_exchange (exchanges w j)" and le: "i \<le> n"
  shows "sample_loop w i 0 (arrays n\<lparr>trace := setup_events\<rparr>) = (None, filled w n i)"
proof -
  let ?s = "arrays n\<lparr>trace := setup_events\<rparr> :: 'a state"
  have len: "length (latencies ?s) = n" "length (hw_timestamps ?s) = n"
    by (simp_all add: arrays_def)
  from sample_loop_ok [of 0 i w ?s] ok le len
  obtain s' where s': "sample_loop w i 0 ?s = (None, s')"
      "trace s' = trace ?s @ concat (map (\<lambda>j. ok_events (exchanges w j)) [0..<i])"
      "\<forall>j. 0 \<le> j \<and> j < i \<longrightarrow>
         latencies s' ! j = lat_of (exchanges w j) \<and> hw_timestamps s' ! j = hw_of (exchanges w j)"
    by auto
  from sample_loop_frame [OF s'(1)] len
  have len': "length (latencies s') = n" "length (hw_timestamps s') = n" by simp_all
  have out: "latencies s' ! j = 0 \<and> hw_timestamps s' ! j = 0" if "i \<le> j" "j < n" for j
    using sample_loop_outside [OF s'(1) that(1)] that(2) by (simp add: arrays_def)
  have lat: "latencies s' = latencies (filled w n i)"
  proof (rule nth_equalityI)
    show "length (latencies s') = length (latencies (filled w n i))"
      using len' le by (simp add: filled_def)
  next
    fix j assume "j < length (latencies s')"
    then have "j < n" using len' by simp
    then show "latencies s' ! j = latencies (filled w n i) ! j"
      using s'(3) out [of j] by (cases "j < i") (simp_all add: filled_def nth_append)
  qed
  have hw: "hw_timestamps s' = hw_timestamps (filled w n i)"
  proof (rule nth_equalityI)
    show "length (hw_timestamps s') = length (hw_timestamps (filled w n i))"
      using len' le by (simp add: filled_def)
  next
    fix j assume "j < length (hw_timestamps s')"
    then have "j < n" using len' by simp
    then show "hw_timestamps s' ! j = hw_timestamps (filled w n i) ! j"
      using s'(3) out [of j] by (cases "j < i") (simp_all add: filled_def nth_append)
  qed
  have tr: "trace s' = trace (filled w n i)"
    using s'(2) by (simp add: filled_def)
  have "s' = filled w n i"
    using lat hw tr by (intro state.equality) simp_all
  with s'(1) show ?thesis by simp
qed

lemma measure_jitter_loop:
  assumes "connects w"
  shows "measure_jitter P w n =
    (case sample_loop w n 0 (arrays n\<lparr>trace := setup_events\<rparr>) of
       (Some e, s) \<Rightarrow> (Some e, emit GcEnable s)
     | (None, s) \<Rightarrow> report P n (emit GcEnable s))"
proof -
  have "emit GcDisable (emit GcCollect (emit PrintInit (emit SetTimeout
          (emit Connect (emit SocketOpen (arrays n :: 'a state))))))
        = arrays n\<lparr>trace := setup_events\<rparr>"
    by (simp add: emit_def arrays_def setup_events_def)
  then show ?thesis
    using assms by (simp add: measure_jitter_def Let_def del: sample_loop.simps split: prod.splits option.splits)
qed

lemma measure_jitter_from:
  assumes "connects w" "\<forall>j<i. ok_exchange (exchanges w j)" "i \<le> n"
  shows "measure_jitter P w n =
    (case sample_loop w n i (filled w n i) of
       (Some e, s) \<Rightarrow> (Some e, emit GcEnable s)
     | (None, s) \<Rightarrow> report P n (emit GcEnable s))"
proof -
  have "sample_loop w n 0 (arrays n\<lparr>trace := setup_events\<rparr>)
        = sample_loop w n i (filled w n i)"
    using sample_loop_split [of 0 i n w "arrays n\<lparr>trace := setup_events\<rparr>"]
      sample_loop_prefix [OF assms(2,3)] assms(3) by simp
  then show ?thesis
    by (simp only: measure_jitter_loop [OF assms(1)])
qed

lemma measure_jitter_ok:
  assumes "connects w" "\<forall>j<n. ok_exchange (exchanges w j)"
  shows "measure_jitter P w n = report P n (emit GcEnable (filled w n n))"
  using measure_jitter_from [OF assms(1,2) le_refl, of P] by simp

lemma measure_jitter_tail:
  assumes "connects w" "\<forall>j<i. ok_exchange (exchanges w j)" "i \<le> n"
    and run: "sample_loop w n i (filled w n i) = (r, s)"
  shows "latencies (snd (measure_jitter P w n)) = latencies s"
    and "hw_timestamps (snd (measure_jitter P w n)) = hw_timestamps s"
    and "\<exists>rest. trace (snd (measure_jitter P w n)) = trace s @ GcEnable # rest
               \<and> list_all is_report rest"
    and "r = Some e \<Longrightarrow> measure_jitter P w n = (Some e, emit GcEnable s)"
proof -
  note mj = measure_jitter_from [OF assms(1-3), of P, unfolded run]
  show "latencies (snd (measure_jitter P w n)) = latencies s"
    by (cases r) (simp_all add: mj report_arrays filled_simps)
  show "hw_timestamps (snd (measure_jitter P w n)) = hw_timestamps s"
    by (cases r) (simp_all add: mj report_arrays filled_simps)
  show "\<exists>rest. trace (snd (measure_jitter P w n)) = trace s @ GcEnable # rest
               \<and> list_all is_report rest"
  proof (cases r)
    case None
    from report_trace [of P n "emit GcEnable s"] None show ?thesis
      by (auto simp: mj emit_def)
  next
    case (Some e)
    then show ?thesis by (simp add: mj emit_def)
  qed
  show "r = Some e \<Longrightarrow> measure_jitter P w n = (Some e, emit GcEnable s)"
    by (simp add: mj)
qed

lemma measure_jitter_abort:
  assumes "connects w" "\<forall>j<i. ok_exchange (exchanges w j)" "i < n"
    and it: "iteration w i (filled w n i) = (Some e, s)"
  shows "measure_jitter P w n = (Some e, emit GcEnable s)"
proof -
  have run: "sample_loop w n i (filled w n i) = (Some e, s)"
    using assms(3) it by simp
  from assms(3) have le: "i \<le> n" by simp
  from measure_jitter_tail(4) [OF assms(1,2) le run refl] show ?thesis .
qed

lemma measure_jitter_full:
  assumes "connects w" "\<forall>j<n. ok_exchange (exchanges w j)" "2 \<le> n"
  shows "measure_jitter P w n =
    (None, (filled w n n)
       \<lparr>trace := trace (filled w n n) @
          [GcEnable, PrintStats n (range_stats P (latencies (filled w n n))),
           PrintLastHw (hw_timestamps (filled w n n) ! (n - 1))]\<rparr>)"
proof -
  have "report P n (emit GcEnable (filled w n n)) =
    (None, (emit GcEnable (filled w n n))
       \<lparr>trace := trace (emit GcEnable (filled w n n)) @
          [PrintStats n (range_stats P (latencies (emit GcEnable (filled w n n)))),
           PrintLastHw (hw_timestamps (emit GcEnable (filled w n n))
                         ! (length (hw_timestamps (emit GcEnable (filled w n n))) - 1))]\<rparr>)"
    using assms(3) by (intro report_ok) (simp_all only: filled_simps)
  then show ?thesis
    by (simp add: measure_jitter_ok [OF assms(1,2)] filled_simps) (simp add: emit_def)
qed

lemma measure_jitter_None:
  assumes "fst (measure_jitter P w n) = None"
  shows "connects w" and "\<forall>j<n. ok_exchange (exchanges w j)" and "2 \<le> n"
proof -
  show c: "connects w"
    using assms by (cases "connects w") (simp_all add: measure_jitter_def Let_def)
  obtain r3 s3 where run: "sample_loop w n 0 (arrays n\<lparr>trace := setup_events\<rparr>) = (r3, s3)"
    by (cases "sample_loop w n 0 (arrays n\<lparr>trace := setup_events\<rparr> :: 'a state)")
  have r3: "r3 = None"
    using assms run by (cases r3) (simp_all add: measure_jitter_loop [OF c])
  show ok: "\<forall>j<n. ok_exchange (exchanges w j)"
    using sample_loop_None_ok [OF run [unfolded r3]] by simp
  show "2 \<le> n"
  proof (rule ccontr)
    assume "\<not> 2 \<le> n"
    then have "length (latencies (emit GcEnable (filled w n n))) < 2"
      by (simp add: filled_simps)
    from report_short [OF this, of P n] assms show False
      by (simp add: measure_jitter_ok [OF c ok])
  qed
qed

lemma gc_step_loop_events: "list_all loop_event evs \<Longrightarrow> foldl gc_step b evs = b"
proof (induction evs)
  case Nil
  show ?case by simp
next
  case (Cons e evs)
  then show ?case by (cases e) simp_all
qed

lemma gc_step_reports: "list_all is_report evs \<Longrightarrow> foldl gc_step b evs = b"
proof (induction evs)
  case Nil
  show ?case by simp
next
  case (Cons e evs)
  then show ?case by (cases e) simp_all
qed

lemma measure_jitter_trace:
  assumes "connects w"
  shows "\<exists>evs rest. trace (snd (measure_jitter P w n)) = setup_events @ evs @ GcEnable # rest
            \<and> list_all loop_event evs \<and> list_all is_report rest
            \<and> (n < 2 \<longrightarrow> rest = [])"
proof -
  let ?s = "filled w n 0"
  obtain r s where run: "sample_loop w n 0 ?s = (r, s)"
    by (cases "sample_loop w n 0 ?s")
  from sample_loop_frame [OF run] obtain evs where evs:
    "trace s = setup_events @ evs" "list_all loop_event evs" "length (latencies s) = n"
    by (auto simp: filled_def)
  have z: "\<forall>j<0. ok_exchange (exchanges w j)" by simp
  note mj = measure_jitter_from [OF assms z le0, of P n, unfolded run]
  show ?thesis
  proof (cases "n < 2 \<or> r \<noteq> None")
    case True
    have "trace (snd (measure_jitter P w n)) = trace s @ [GcEnable]"
    proof (cases r)
      case (Some e)
      then show ?thesis by (simp add: mj emit_def)
    next
      case None
      with True have "length (latencies (emit GcEnable s)) < 2"
        using evs(3) by (simp add: emit_def)
      from report_short [OF this, of P n] None show ?thesis
        by (simp add: mj emit_def)
    qed
    with evs show ?thesis
      by (intro exI [of _ evs] exI [of _ "[]"]) simp
  next
    case False
    from measure_jitter_tail(3) [OF assms z le0 run]
    obtain rest where "trace (snd (measure_jitter P w n)) = trace s @ GcEnable # rest"
      "list_all is_report rest" by blast
    with evs False show ?thesis
      by (intro exI [of _ evs] exI [of _ rest]) simp
  qed
qed

section \<open>The claims\<close>

subsection \<open>C1: the jitter is the peak-to-peak range\<close>

text \<open>
  C1. For every fully populated latency sequence of length at least two, the report
  is printed and the jitter it shows is exactly the greatest recorded latency minus
  the least one: the peak-to-peak range, whatever the order of the samples.
\<close>

theorem reported_jitter_is_range:
  fixes s :: "('f::{linorder,minus}) state"
  assumes "2 \<le> length (latencies s)" "length (hw_timestamps s) = length (latencies s)"
  shows "\<exists>st v. report P n s = (None, s\<lparr>trace := trace s @ [PrintStats n st, PrintLastHw v]\<rparr>)
           \<and> jitter_pico st = Max (set (latencies s)) - Min (set (latencies s))"
proof (intro exI conjI)
  show "report P n s =
     (None, s\<lparr>trace := trace s @ [PrintStats n (range_stats P (latencies s)),
                PrintLastHw (hw_timestamps s ! (length (hw_timestamps s) - 1))]\<rparr>)"
    by (rule report_ok [OF assms])
  show "jitter_pico (range_stats P (latencies s)) = Max (set (latencies s)) - Min (set (latencies s))"
    by (simp add: range_stats_def)
qed

theorem reported_jitter_is_range_witness:
  "2 \<le> length (latencies \<lparr>latencies = [3, 1, 2 :: real], hw_timestamps = [7, 8, 9], trace = []\<rparr>)
   \<and> length (hw_timestamps \<lparr>latencies = [3, 1, 2 :: real], hw_timestamps = [7, 8, 9], trace = []\<rparr>) = 3
   \<and> (\<exists>st v. report real_lib 3 \<lparr>latencies = [3, 1, 2], hw_timestamps = [7, 8, 9], trace = []\<rparr>
               = (None, \<lparr>latencies = [3, 1, 2], hw_timestamps = [7, 8, 9],
                         trace = [PrintStats 3 st, PrintLastHw v]\<rparr>)
            \<and> jitter_pico st = 2)"
  using reported_jitter_is_range
    [of "\<lparr>latencies = [3, 1, 2 :: real], hw_timestamps = [7, 8, 9], trace = []\<rparr>" real_lib 3]
  by simp

subsection \<open>C3: a sample count below two\<close>




subsection \<open>C4: a response that is not eight bytes long\<close>

text \<open>
  C4, as amended. When the payload received in iteration \<open>i\<close> is shorter than eight
  bytes (every earlier iteration having gone through), \<^verbatim>\<open>unpack\<close> raises
  \<^verbatim>\<open>struct.error\<close>, which is not the timeout exception; nothing catches it, and the
  script ends without printing a report.
\<close>

theorem short_reply_is_struct_error:
  assumes "connects w" "i < n" "\<forall>j<i. ok_exchange (exchanges w j)"
    and "send_res (exchanges w i) = Sent" "recv_res (exchanges w i) = Datagram d"
    and "length d < 8"
  shows "fst (measure_jitter P w n) = Some StructError
     \<and> StructError \<noteq> TimeoutError
     \<and> \<not> list_ex is_report (trace (snd (measure_jitter P w n)))"
proof -
  let ?x = "exchanges w i"
  let ?s = "filled w n i"
  have len: "i < length (latencies ?s)"
    using assms(2) by (simp add: filled_def)
  have it: "iteration w i ?s =
     (Some StructError, ?s\<lparr>latencies := (latencies ?s)[i := lat_of ?x],
                           trace := trace ?s @ ok_events ?x\<rparr>)"
    using assms(4-6) len
    by (simp add: iteration_def Let_def emit_def array_set_def unpack_Q_def recv_bytes_def
        lat_of_def ok_events_def)
  have nr: "\<not> list_ex is_report (trace ?s)" by (rule no_report_filled)
  show ?thesis
    using nr by (simp add: measure_jitter_abort [OF assms(1,3,2) it] emit_def ok_events_def)
qed

theorem short_reply_is_struct_error_witness:
  "connects (echo_world [[1, 2, 3]])
   \<and> recv_res (exchanges (echo_world [[1, 2, 3]]) 0) = Datagram [1, 2, 3]
   \<and> length [1, 2, 3 :: byte] < 8
   \<and> fst (measure_jitter real_lib (echo_world [[1, 2, 3]]) 2) = Some StructError"
proof -
  have c: "connects (echo_world [[1, 2, 3]])"
    by (simp add: echo_world_def)
  have ok: "\<forall>j<0. ok_exchange (exchanges (echo_world [[1, 2, 3]]) j)" by simp
  have s: "send_res (exchanges (echo_world [[1, 2, 3]]) 0) = Sent"
    by (simp add: echo_world_def)
  have r: "recv_res (exchanges (echo_world [[1, 2, 3]]) 0) = Datagram [1, 2, 3]"
    by (simp add: echo_world_def)
  have l: "length [1, 2, 3 :: byte] < 8" by simp
  have lt: "(0::nat) < 2" by simp
  from short_reply_is_struct_error [OF c lt ok s r l, of real_lib] c r l show ?thesis
    by simp
qed

text \<open>
  C4 as it is written speaks of every payload that is not exactly eight bytes long. A
  longer one goes through: here both answers are nine bytes long and the script ends
  normally.
\<close>

theorem oversized_reply_run_completes:
  "recv_res (exchanges (echo_world [[1, 0, 0, 0, 0, 0, 0, 0, 9], [2, 0, 0, 0, 0, 0, 0, 0, 9]]) 0)
      = Datagram [1, 0, 0, 0, 0, 0, 0, 0, 9]
   \<and> length [1, 0, 0, 0, 0, 0, 0, 0, 9 :: byte] \<noteq> 8
   \<and> fst (measure_jitter real_lib
            (echo_world [[1, 0, 0, 0, 0, 0, 0, 0, 9], [2, 0, 0, 0, 0, 0, 0, 0, 9]]) 2) = None"
  by (simp add: measure_jitter_def Let_def emit_def arrays_def iteration_def echo_world_def
        array_set_def unpack_Q_def recv_bytes_def report_def aggregate_def
        statistics_mean_def statistics_stdev_def array_last_def eval_nat_numeral)

subsection \<open>C5: a failing receive ends the run\<close>

text \<open>
  C5. When the \<^verbatim>\<open>recv\<close> of iteration \<open>i\<close> times out or raises a socket error (every
  earlier iteration having gone through), the script ends with that exception. The
  trace shows \<open>i\<close> complete exchanges, the clock reading, \<^verbatim>\<open>send\<close> and \<^verbatim>\<open>recv\<close> of
  iteration \<open>i\<close>, then \<^verbatim>\<open>gc.enable()\<close> and nothing more: no statistics are computed
  or printed. Both arrays keep their length \<^verbatim>\<open>COUNT\<close>, with the first \<open>i\<close> entries
  filled and the others still zero.
\<close>

theorem receive_failure_aborts_run:
  assumes "connects w" "i < n" "\<forall>j<i. ok_exchange (exchanges w j)"
    and "send_res (exchanges w i) = Sent"
    and "recv_res (exchanges w i) = TimesOut \<or> recv_res (exchanges w i) = RecvFails"
  shows "fst (measure_jitter P w n)
           = Some (if recv_res (exchanges w i) = TimesOut then TimeoutError else OSError)
     \<and> trace (snd (measure_jitter P w n))
           = setup_events @ concat (map (\<lambda>j. ok_events (exchanges w j)) [0..<i])
               @ [Clock (t0 (exchanges w i)), Send [0x54], Recv 8, GcEnable]
     \<and> \<not> list_ex is_report (trace (snd (measure_jitter P w n)))
     \<and> latencies (snd (measure_jitter P w n))
           = map (\<lambda>j. lat_of (exchanges w j)) [0..<i] @ replicate (n - i) 0
     \<and> hw_timestamps (snd (measure_jitter P w n))
           = map (\<lambda>j. hw_of (exchanges w j)) [0..<i] @ replicate (n - i) 0"
proof -
  let ?x = "exchanges w i"
  let ?s = "filled w n i"
  let ?e = "if recv_res ?x = TimesOut then TimeoutError else OSError"
  have it: "iteration w i ?s =
     (Some ?e, ?s\<lparr>trace := trace ?s @ [Clock (t0 ?x), Send [0x54], Recv 8]\<rparr>)"
    using assms(4,5) by (auto simp: iteration_def Let_def emit_def)
  have nr: "\<not> list_ex is_report (trace ?s)" by (rule no_report_filled)
  have mj: "measure_jitter P w n =
     (Some ?e, emit GcEnable (?s\<lparr>trace := trace ?s @ [Clock (t0 ?x), Send [0x54], Recv 8]\<rparr>))"
    by (rule measure_jitter_abort [OF assms(1,3,2) it])
  have "trace ?s = setup_events @ concat (map (\<lambda>j. ok_events (exchanges w j)) [0..<i])"
    "latencies ?s = map (\<lambda>j. lat_of (exchanges w j)) [0..<i] @ replicate (n - i) 0"
    "hw_timestamps ?s = map (\<lambda>j. hw_of (exchanges w j)) [0..<i] @ replicate (n - i) 0"
    by (simp_all add: filled_def)
  with nr show ?thesis
    by (simp add: mj emit_def)
qed

theorem receive_failure_aborts_run_witness:
  "connects (echo_world [pack_Q 100])
   \<and> recv_res (exchanges (echo_world [pack_Q 100]) 1) = TimesOut
   \<and> measure_jitter real_lib (echo_world [pack_Q 100]) 3 =
       (Some TimeoutError,
        \<lparr>latencies = [500000, 0, 0], hw_timestamps = [100, 0, 0],
         trace = [SocketOpen, Connect, SetTimeout, PrintInit, GcCollect, GcDisable,
                  Clock 0, Send [0x54], Recv 8, Clock (1 / 2),
                  Clock 1, Send [0x54], Recv 8, GcEnable]\<rparr>)"
proof -
  let ?w = "echo_world [pack_Q 100]"
  have c: "connects ?w"
    by (simp add: echo_world_def)
  have ok: "\<forall>j<1. ok_exchange (exchanges ?w j)"
    by (simp add: echo_world_def ok_exchange_def length_pack_Q)
  have s: "send_res (exchanges ?w 1) = Sent"
    by (simp add: echo_world_def)
  have r: "recv_res (exchanges ?w 1) = TimesOut"
    by (simp add: echo_world_def)
  have lt: "(1::nat) < 3" by simp
  have hw: "hw_of (exchanges ?w 0) = 100"
    by (simp add: hw_of_def echo_world_def recv_bytes_def length_pack_Q le_value_pack_Q)
  have rep: "replicate (3 - 1) (0::real) = [0, 0]" "replicate (3 - 1) (0::u64) = [0, 0]"
    by (simp_all add: eval_nat_numeral)
  have "measure_jitter real_lib ?w 3
     = (fst (measure_jitter real_lib ?w 3),
        \<lparr>latencies = latencies (snd (measure_jitter real_lib ?w 3)),
         hw_timestamps = hw_timestamps (snd (measure_jitter real_lib ?w 3)),
         trace = trace (snd (measure_jitter real_lib ?w 3))\<rparr>)"
    by (simp add: prod_eq_iff)
  also have "\<dots> = (Some TimeoutError,
        \<lparr>latencies = [500000, 0, 0], hw_timestamps = [100, 0, 0],
         trace = [SocketOpen, Connect, SetTimeout, PrintInit, GcCollect, GcDisable,
                  Clock 0, Send [0x54], Recv 8, Clock (1 / 2),
                  Clock 1, Send [0x54], Recv 8, GcEnable]\<rparr>)"
    using receive_failure_aborts_run [OF c lt ok s disjI1 [OF r], of real_lib] hw rep
    by (simp add: r setup_events_def ok_events_def lat_of_def)
       (simp add: echo_world_def real_lib_def)
  finally show ?thesis using c r by simp
qed

subsection \<open>C6: the collector around the loop\<close>

text \<open>
  C6. Once the socket is connected, whatever the peer and the clock do: the script
  runs the collector and switches it off, then come the events of the loop (clock
  readings and socket traffic only), then the collector is switched on again, and
  after that at most the report. Automatic collection is off at every point from the
  start of the loop to its end, and on from then on, whether the loop ended normally
  or with an exception.
\<close>

theorem collector_off_during_loop:
  assumes "connects w"
  shows "\<exists>evs rest.
     trace (snd (measure_jitter P w n))
       = [SocketOpen, Connect, SetTimeout, PrintInit, GcCollect, GcDisable] @ evs @ GcEnable # rest
     \<and> list_all loop_event evs \<and> list_all is_report rest
     \<and> (\<forall>k\<le>length evs. \<not> gc_enabled (take (6 + k) (trace (snd (measure_jitter P w n)))))
     \<and> gc_enabled (take (6 + length evs + 1) (trace (snd (measure_jitter P w n))))
     \<and> gc_enabled (trace (snd (measure_jitter P w n)))"
proof -
  from measure_jitter_trace [OF assms, of P n] obtain evs rest where t:
    "trace (snd (measure_jitter P w n)) = setup_events @ evs @ GcEnable # rest"
    "list_all loop_event evs" "list_all is_report rest"
    by blast
  have off: "\<not> gc_enabled (take (6 + k) (trace (snd (measure_jitter P w n))))"
    if "k \<le> length evs" for k
  proof -
    have "take (6 + k) (trace (snd (measure_jitter P w n))) = setup_events @ take k evs"
      using that by (simp add: t(1) length_setup_events)
    moreover have "list_all loop_event (take k evs)"
      using t(2) by (simp add: list_all_iff) (meson in_set_takeD)
    ultimately show ?thesis
      by (simp add: gc_enabled_def gc_step_loop_events) (simp add: setup_events_def)
  qed
  have "take (6 + length evs + 1) (trace (snd (measure_jitter P w n)))
      = setup_events @ evs @ [GcEnable]"
    by (simp add: t(1) length_setup_events)
  then have on1: "gc_enabled (take (6 + length evs + 1) (trace (snd (measure_jitter P w n))))"
    by (simp add: gc_enabled_def gc_step_loop_events [OF t(2)])
  have on2: "gc_enabled (trace (snd (measure_jitter P w n)))"
    by (simp add: t(1) gc_enabled_def gc_step_loop_events [OF t(2)] gc_step_reports [OF t(3)])
  show ?thesis
    using t off on1 on2 by (intro exI [of _ evs] exI [of _ rest]) (simp add: setup_events_def)
qed

theorem collector_off_during_loop_witness:
  "connects (echo_world [[1, 2, 3]])
   \<and> trace (snd (measure_jitter real_lib (echo_world [[1, 2, 3]]) 2))
       = [SocketOpen, Connect, SetTimeout, PrintInit, GcCollect, GcDisable,
          Clock 0, Send [0x54], Recv 8, Clock (1 / 2), GcEnable]
   \<and> \<not> gc_enabled (take 6 (trace (snd (measure_jitter real_lib (echo_world [[1, 2, 3]]) 2))))
   \<and> \<not> gc_enabled (take 10 (trace (snd (measure_jitter real_lib (echo_world [[1, 2, 3]]) 2))))
   \<and> gc_enabled (trace (snd (measure_jitter real_lib (echo_world [[1, 2, 3]]) 2)))"
proof -
  let ?t = "trace (snd (measure_jitter real_lib (echo_world [[1, 2, 3]]) 2))"
  have c: "connects (echo_world [[1, 2, 3]])"
    by (simp add: echo_world_def)
  have tr: "?t = [SocketOpen, Connect, SetTimeout, PrintInit, GcCollect, GcDisable,
          Clock 0, Send [0x54], Recv 8, Clock (1 / 2), GcEnable]"
    by (simp add: measure_jitter_def Let_def emit_def arrays_def iteration_def echo_world_def
        array_set_def unpack_Q_def recv_bytes_def real_lib_def eval_nat_numeral)
  from collector_off_during_loop [OF c, of real_lib 2] obtain evs rest where e:
    "?t = [SocketOpen, Connect, SetTimeout, PrintInit, GcCollect, GcDisable] @ evs @ GcEnable # rest"
    "list_all loop_event evs"
    "\<forall>k\<le>length evs. \<not> gc_enabled (take (6 + k) ?t)"
    "gc_enabled ?t"
    by blast
  from e(1,2) have "evs = [Clock 0, Send [0x54], Recv 8, Clock (1 / 2)]"
    unfolding tr by (auto simp: Cons_eq_append_conv)
  then have "length evs = 4" by simp
  with e(3) have "\<not> gc_enabled (take (6 + 0) ?t)" "\<not> gc_enabled (take (6 + 4) ?t)"
    by (metis le0, metis le_refl)
  with c tr e(4) show ?thesis by simp
qed

subsection \<open>C7: the hardware timestamps are the decoded responses\<close>

text \<open>
  C7. When every request is answered by an eight-byte datagram, the array of hardware
  timestamps ends up holding, position by position, the little-endian value of each
  answer; when the peer sends the little-endian bytes of \<open>v j\<close> in answer \<open>j\<close>, entry
  \<open>j\<close> is \<open>v j\<close>.
\<close>

theorem hw_round_trip:
  assumes "connects w"
    and "\<forall>j<n. send_res (exchanges w j) = Sent \<and> recv_res (exchanges w j) = Datagram (d j)
               \<and> length (d j) = 8"
  shows "hw_timestamps (snd (measure_jitter P w n)) = map (\<lambda>j. le_value (d j)) [0..<n]
     \<and> (\<forall>j<n. d j = pack_Q (v j) \<longrightarrow> hw_timestamps (snd (measure_jitter P w n)) ! j = v j)"
proof -
  have ok: "\<forall>j<n. ok_exchange (exchanges w j)"
    using assms(2) by (simp add: ok_exchange_def)
  have hw: "hw_of (exchanges w j) = le_value (d j)" if "j < n" for j
    using assms(2) that by (simp add: hw_of_def recv_bytes_def)
  have all: "hw_timestamps (snd (measure_jitter P w n)) = map (\<lambda>j. le_value (d j)) [0..<n]"
    by (simp add: measure_jitter_ok [OF assms(1) ok] report_arrays filled_simps filled_def hw)
  have "hw_timestamps (snd (measure_jitter P w n)) ! j = v j" if "j < n" "d j = pack_Q (v j)" for j
    using that by (simp add: all le_value_pack_Q)
  with all show ?thesis by blast
qed

theorem hw_round_trip_witness:
  "connects (echo_world (map pack_Q [100, 105, 99]))
   \<and> hw_timestamps (snd (measure_jitter real_lib (echo_world (map pack_Q [100, 105, 99])) 3))
       = [100, 105, 99]"
proof -
  have c: "connects (echo_world (map pack_Q [100, 105, 99]))"
    by (simp add: echo_world_def)
  have e: "\<forall>j<3. send_res (exchanges (echo_world (map pack_Q [100, 105, 99])) j) = Sent
      \<and> recv_res (exchanges (echo_world (map pack_Q [100, 105, 99])) j)
          = Datagram (pack_Q ([100, 105, 99] ! j))
      \<and> length (pack_Q ([100, 105, 99] ! j)) = 8"
    by (auto simp: echo_world_def length_pack_Q eval_nat_numeral less_Suc_eq)
  have "map (\<lambda>j. le_value (pack_Q ([100, 105, 99] ! j))) [0..<3] = [100, 105, 99]"
    by (simp add: le_value_pack_Q eval_nat_numeral)
  with c hw_round_trip [OF c e, of real_lib "\<lambda>j. [100, 105, 99] ! j"] show ?thesis
    by simp
qed

subsection \<open>C8: the reported hardware timestamp\<close>

text \<open>
  C8. When the script ends normally, \<^verbatim>\<open>COUNT\<close> is at least two, the last thing it
  prints is the hardware timestamp stored at index \<^verbatim>\<open>COUNT - 1\<close>, and that value is the
  decoding of the last response. With the echoed values 100, 105, 99, 200, 201 it
  prints 201.
\<close>

theorem reported_hw_is_last:
  assumes "fst (measure_jitter P w n) = None"
  shows "2 \<le> n
     \<and> length (hw_timestamps (snd (measure_jitter P w n))) = n
     \<and> last (trace (snd (measure_jitter P w n)))
         = PrintLastHw (hw_timestamps (snd (measure_jitter P w n)) ! (n - 1))
     \<and> hw_timestamps (snd (measure_jitter P w n)) ! (n - 1) = hw_of (exchanges w (n - 1))"
proof -
  note f = measure_jitter_None [OF assms]
  from f(3) have "n - 1 < n" by simp
  then have "hw_timestamps (filled w n n) ! (n - 1) = hw_of (exchanges w (n - 1))"
    by (simp add: filled_def del: One_nat_def)
  then show ?thesis
    using f(3) by (simp add: measure_jitter_full [OF f] filled_simps del: One_nat_def)
qed

theorem reported_hw_is_last_witness:
  "fst (measure_jitter real_lib (echo_world (map pack_Q [100, 105, 99, 200, 201])) 5) = None
   \<and> last (trace (snd (measure_jitter real_lib (echo_world (map pack_Q [100, 105, 99, 200, 201])) 5)))
       = PrintLastHw 201"
proof -
  have run: "fst (measure_jitter real_lib (echo_world (map pack_Q [100, 105, 99, 200, 201])) 5) = None"
    by (simp add: measure_jitter_def Let_def emit_def arrays_def iteration_def echo_world_def
        array_set_def unpack_Q_def recv_bytes_def length_pack_Q report_def aggregate_def
        statistics_mean_def statistics_stdev_def array_last_def eval_nat_numeral)
  have "hw_of (exchanges (echo_world (map pack_Q [100, 105, 99, 200, 201])) (5 - 1)) = 201"
    by (simp add: hw_of_def echo_world_def recv_bytes_def length_pack_Q le_value_pack_Q)
  with run reported_hw_is_last [OF run] show ?thesis by simp
qed

subsection \<open>C9: the stored latency\<close>

text \<open>
  C9. In every iteration that gets as far as the store (the iterations before it went
  through, its \<^verbatim>\<open>send\<close> did not raise and its \<^verbatim>\<open>recv\<close> returned), the value stored at
  index \<open>i\<close> is \<open>(t1 - t0) * 1000000\<close>, with the factor one million of line 38.
  Here \<open>t0\<close> is the clock reading taken right before the \<^verbatim>\<open>send\<close> and \<open>t1\<close> the one
  taken right after the \<^verbatim>\<open>recv\<close>: the four events of the iteration are, in this
  order, clock, send, receive, clock. The value stays there to the end of the script.
  In the instance below the readings are 1 and 3/2 and the stored value is 500000.
\<close>

theorem latency_is_scaled_difference:
  assumes "connects w" "i < n" "\<forall>j<i. ok_exchange (exchanges w j)"
    and "send_res (exchanges w i) = Sent" "recv_res (exchanges w i) = Datagram d"
  shows "latencies (snd (measure_jitter P w n)) ! i
           = (t1 (exchanges w i) - t0 (exchanges w i)) * 1000000
     \<and> take 4 (drop (6 + 4 * i) (trace (snd (measure_jitter P w n))))
           = [Clock (t0 (exchanges w i)), Send [0x54], Recv 8, Clock (t1 (exchanges w i))]"
proof -
  let ?s = "filled w n i"
  have len: "i < length (latencies ?s)"
    using assms(2) by (simp add: filled_def)
  obtain r1 s1 where it: "iteration w i ?s = (r1, s1)"
    by (cases "iteration w i ?s")
  have d: "latencies s1 ! i = (t1 (exchanges w i) - t0 (exchanges w i)) * 1000000"
    "trace s1 = trace ?s @ [Clock (t0 (exchanges w i)), Send [0x54], Recv 8,
                            Clock (t1 (exchanges w i))]"
    using assms(4,5) len it
    by (auto simp: iteration_def Let_def emit_def array_set_def split: sum.splits if_splits)
  obtain r s where run: "sample_loop w n i ?s = (r, s)"
    by (cases "sample_loop w n i ?s")
  have keep: "latencies s ! i = latencies s1 ! i \<and> (\<exists>evs. trace s = trace s1 @ evs)"
  proof (cases r1)
    case (Some e)
    with run it assms(2) have "s = s1" by simp
    then show ?thesis by simp
  next
    case None
    with run it assms(2) have "sample_loop w n (Suc i) s1 = (r, s)" by simp
    from sample_loop_frame [OF this] show ?thesis by auto
  qed
  then obtain evs where evs: "trace s = trace s1 @ evs" by blast
  from assms(2) have le: "i \<le> n" by simp
  note tl = measure_jitter_tail [OF assms(1,3) le run]
  from tl(3) obtain rest where rest:
    "trace (snd (measure_jitter P w n)) = trace s @ GcEnable # rest" by blast
  have tr: "trace (snd (measure_jitter P w n))
      = trace ?s @ [Clock (t0 (exchanges w i)), Send [0x54], Recv 8, Clock (t1 (exchanges w i))]
          @ (evs @ GcEnable # rest)"
    by (simp add: rest evs d(2))
  have "latencies (snd (measure_jitter P w n)) ! i
      = (t1 (exchanges w i) - t0 (exchanges w i)) * 1000000"
    using tl(1) keep d(1) by simp
  moreover have "take 4 (drop (6 + 4 * i) (trace (snd (measure_jitter P w n))))
      = [Clock (t0 (exchanges w i)), Send [0x54], Recv 8, Clock (t1 (exchanges w i))]"
    using length_filled_trace [of w n i] by (simp add: tr)
  ultimately show ?thesis by simp
qed

theorem latency_is_scaled_difference_witness:
  "connects (echo_world (map pack_Q [100, 105]))
   \<and> ok_exchange (exchanges (echo_world (map pack_Q [100, 105])) 0)
   \<and> recv_res (exchanges (echo_world (map pack_Q [100, 105])) 1) = Datagram (pack_Q 105)
   \<and> latencies (snd (measure_jitter real_lib (echo_world (map pack_Q [100, 105])) 2)) ! 1 = 500000
   \<and> take 4 (drop 10 (trace (snd (measure_jitter real_lib (echo_world (map pack_Q [100, 105])) 2))))
       = [Clock 1, Send [0x54], Recv 8, Clock (3 / 2)]"
proof -
  have c: "connects (echo_world (map pack_Q [100, 105]))"
    by (simp add: echo_world_def)
  have ok: "\<forall>j<1. ok_exchange (exchanges (echo_world (map pack_Q [100, 105])) j)"
    by (simp add: echo_world_def ok_exchange_def length_pack_Q)
  have s: "send_res (exchanges (echo_world (map pack_Q [100, 105])) 1) = Sent"
    by (simp add: echo_world_def)
  have r: "recv_res (exchanges (echo_world (map pack_Q [100, 105])) 1) = Datagram (pack_Q 105)"
    by (simp add: echo_world_def)
  have lt: "(1::nat) < 2" by simp
  have ev: "latencies (snd (measure_jitter real_lib (echo_world (map pack_Q [100, 105])) 2)) ! 1
        = 500000
      \<and> take 4 (drop 10 (trace (snd (measure_jitter real_lib (echo_world (map pack_Q [100, 105])) 2))))
        = [Clock 1, Send [0x54], Recv 8, Clock (3 / 2)]"
    by (simp add: measure_jitter_def Let_def emit_def arrays_def iteration_def echo_world_def
        array_set_def unpack_Q_def recv_bytes_def length_pack_Q report_def aggregate_def
        statistics_mean_def statistics_stdev_def array_last_def eval_nat_numeral)
  from latency_is_scaled_difference [OF c lt ok s r, of real_lib] ev c ok r show ?thesis
    by simp
qed

subsection \<open>C10: a response longer than eight bytes\<close>

text \<open>
  C10. A datagram longer than eight bytes is not noticed. When \<^verbatim>\<open>recv(8)\<close> returns on
  such a datagram it hands over the first eight bytes only; the iteration ends without
  an exception, and what is stored at index \<open>i\<close> is the 64-bit value \<open>v\<close> whose
  little-endian bytes are those eight bytes. The value is stated through the
  encoding \<open>pack_Q\<close>, not through the decoding the model uses. In the instance below
  the nine bytes are 1 to 9 and the stored value is 0x0807060504030201.
\<close>

theorem oversized_reply_accepted:
  assumes "send_res (exchanges w i) = Sent" "recv_res (exchanges w i) = Datagram d"
    and "8 < length d" "i < length (latencies s)" "i < length (hw_timestamps s)"
  shows "\<exists>v. pack_Q v = take 8 d
     \<and> iteration w i s =
         (None, s\<lparr>latencies := (latencies s)[i := (t1 (exchanges w i) - t0 (exchanges w i)) * 1000000],
                  hw_timestamps := (hw_timestamps s)[i := v],
                  trace := trace s @ [Clock (t0 (exchanges w i)), Send [0x54], Recv 8,
                                      Clock (t1 (exchanges w i))]\<rparr>)"
proof (intro exI conjI)
  from assms(3) have len: "length (take 8 d) = 8" by simp
  show "pack_Q (le_value (take 8 d)) = take 8 d"
    by (rule pack_Q_le_value [OF len])
  have "ok_exchange (exchanges w i)"
    using assms(1-3) by (simp add: ok_exchange_def)
  from iteration_ok [OF this assms(4,5)] assms(2)
  show "iteration w i s =
         (None, s\<lparr>latencies := (latencies s)[i := (t1 (exchanges w i) - t0 (exchanges w i)) * 1000000],
                  hw_timestamps := (hw_timestamps s)[i := le_value (take 8 d)],
                  trace := trace s @ [Clock (t0 (exchanges w i)), Send [0x54], Recv 8,
                                      Clock (t1 (exchanges w i))]\<rparr>)"
    by (simp add: lat_of_def hw_of_def ok_events_def recv_bytes_def)
qed

theorem oversized_reply_accepted_witness:
  "recv_res (exchanges (echo_world [[1, 2, 3, 4, 5, 6, 7, 8, 9]]) 0)
      = Datagram [1, 2, 3, 4, 5, 6, 7, 8, 9]
   \<and> 8 < length [1, 2, 3, 4, 5, 6, 7, 8, 9 :: byte]
   \<and> pack_Q 578437695752307201 = [1, 2, 3, 4, 5, 6, 7, 8]
   \<and> iteration (echo_world [[1, 2, 3, 4, 5, 6, 7, 8, 9]]) 0 (arrays 1) =
       (None, \<lparr>latencies = [500000], hw_timestamps = [578437695752307201],
               trace = [Clock 0, Send [0x54], Recv 8, Clock (1 / 2)]\<rparr>)"
proof -
  let ?d = "[1, 2, 3, 4, 5, 6, 7, 8, 9 :: byte]"
  let ?w = "echo_world [?d]"
  let ?a = "arrays 1 :: real state"
  have s: "send_res (exchanges ?w 0) = Sent"
    by (simp add: echo_world_def)
  have r: "recv_res (exchanges ?w 0) = Datagram ?d"
    by (simp add: echo_world_def)
  have l: "8 < length ?d" by simp
  have a: "0 < length (latencies ?a)" "0 < length (hw_timestamps ?a)"
    by (simp_all add: arrays_def)
  have ev: "iteration ?w 0 ?a =
       (None, \<lparr>latencies = [500000], hw_timestamps = [578437695752307201],
               trace = [Clock 0, Send [0x54], Recv 8, Clock (1 / 2)]\<rparr>)"
    by (simp add: iteration_def Let_def emit_def arrays_def echo_world_def array_set_def
        unpack_Q_def recv_bytes_def)
  from oversized_reply_accepted [OF s r l a] obtain v where v:
    "pack_Q v = take 8 ?d"
    "iteration ?w 0 ?a =
       (None, ?a\<lparr>latencies := (latencies ?a)[0 := (t1 (exchanges ?w 0) - t0 (exchanges ?w 0)) * 1000000],
                  hw_timestamps := (hw_timestamps ?a)[0 := v],
                  trace := trace ?a @ [Clock (t0 (exchanges ?w 0)), Send [0x54], Recv 8,
                                      Clock (t1 (exchanges ?w 0))]\<rparr>)"
    by blast
  from v(2) ev have "v = 578437695752307201"
    by (simp add: arrays_def)
  with v(1) have p: "pack_Q 578437695752307201 = [1, 2, 3, 4, 5, 6, 7, 8]"
    by simp
  from r l p ev show ?thesis by simp
qed

end
